theory Spec2Isabelle
  imports Main
begin

section \<open>Python values used by skyscrapers.py\<close>

text \<open>
  A Python \<open>str\<close> is modelled as a \<open>string\<close>, one \<open>char\<close> for each code point; the model
  covers texts whose code points are below 256. The exceptions the module can raise are
  values: \<open>OSError\<close> (\<open>open\<close> on an unreadable path), \<open>IndexError\<close> (a subscript out of
  range) and \<open>ValueError\<close> (\<open>int\<close> of a cell that is not a decimal digit).
\<close>

datatype py_error = OSError | IndexError | ValueError

text \<open>\<open>xs[i]\<close> for a non-negative index.\<close>

definition py_get :: "'a list \<Rightarrow> nat \<Rightarrow> py_error + 'a" where
  "py_get xs i = (if i < length xs then Inr (xs ! i) else Inl IndexError)"

text \<open>
  \<open>range(1, n - 1)\<close> for \<open>n = len(...)\<close>. For \<open>n = 0\<close> Python's range runs from 1 to -1
  and is empty; the truncated subtraction gives \<open>[1..<0]\<close>, empty as well.
\<close>

definition inner_range :: "nat \<Rightarrow> nat list" where
  "inner_range n = [1 ..< n - 1]"

text \<open>\<open>str.isspace\<close> on one code point below 256: 9 to 13, 28 to 32, 133 and 160.\<close>

definition is_space :: "char \<Rightarrow> bool" where
  "is_space c =
     (let n = (of_char c :: nat)
      in (9 \<le> n \<and> n \<le> 13) \<or> (28 \<le> n \<and> n \<le> 32) \<or> n = 133 \<or> n = 160)"

text \<open>\<open>int(c)\<close> on a one-character string: the digit's value, or \<open>ValueError\<close>.\<close>

definition is_digit :: "char \<Rightarrow> bool" where
  "is_digit c = (let n = (of_char c :: nat) in 48 \<le> n \<and> n \<le> 57)"

definition py_int :: "char \<Rightarrow> py_error + int" where
  "py_int c = (if is_digit c then Inr (int (of_char c) - 48) else Inl ValueError)"

text \<open>\<open>list(map(int, s))\<close>: the first cell that is not a digit raises.\<close>

fun map_int :: "string \<Rightarrow> py_error + int list" where
  "map_int [] = Inr []"
| "map_int (c # cs) =
     (case py_int c of
        Inl e \<Rightarrow> Inl e
      | Inr h \<Rightarrow> (case map_int cs of Inl e \<Rightarrow> Inl e | Inr hs \<Rightarrow> Inr (h # hs)))"

text \<open>\<open>s.strip()\<close>: whitespace is removed at both ends.\<close>

definition strip :: "string \<Rightarrow> string" where
  "strip s = rev (dropWhile is_space (rev (dropWhile is_space s)))"

section \<open>read_input\<close>

text \<open>
  The file system is a map from paths to the decoded text of the readable files.
  \<open>open(path)\<close> reads in text mode with universal newlines: \<open>\r\n\<close> and a lone \<open>\r\<close>
  arrive as \<open>\n\<close>. \<open>readlines\<close> cuts the text after every \<open>\n\<close> and keeps it in the line.
\<close>

type_synonym file_system = "string \<rightharpoonup> string"

fun universal_newlines :: "string \<Rightarrow> string" where
  "universal_newlines [] = []"
| "universal_newlines [c] = (if c = CHR 0x0D then [CHR 0x0A] else [c])"
| "universal_newlines (c # d # cs) =
     (if c = CHR 0x0D then
        (if d = CHR 0x0A then CHR 0x0A # universal_newlines cs
         else CHR 0x0A # universal_newlines (d # cs))
      else c # universal_newlines (d # cs))"

fun split_lines :: "string \<Rightarrow> string \<Rightarrow> string list" where
  "split_lines cur [] = (if cur = [] then [] else [cur])"
| "split_lines cur (c # cs) =
     (if c = CHR 0x0A then (cur @ [c]) # split_lines [] cs
      else split_lines (cur @ [c]) cs)"

definition readlines :: "string \<Rightarrow> string list" where
  "readlines text = split_lines [] (universal_newlines text)"

definition read_input :: "file_system \<Rightarrow> string \<Rightarrow> py_error + string list" where
  "read_input fs path =
     (case fs path of
        None \<Rightarrow> Inl OSError
      | Some text \<Rightarrow> Inr (map strip (readlines text)))"

section \<open>check_not_finished_board\<close>

text \<open>The inner loop over the cells of one row: \<open>True\<close> when it reaches \<open>return False\<close>.\<close>

fun row_has_unknown :: "string \<Rightarrow> bool" where
  "row_has_unknown [] = False"
| "row_has_unknown (cell # cells) = (if cell = CHR ''?'' then True else row_has_unknown cells)"

fun check_not_finished_board :: "string list \<Rightarrow> bool" where
  "check_not_finished_board [] = True"
| "check_not_finished_board (row # rows) =
     (if row_has_unknown row then False else check_not_finished_board rows)"

section \<open>check_uniqueness_in_rows\<close>

text \<open>
  The inner loop over \<open>cell_idx\<close>, with the set \<open>heights\<close> as state; \<open>False\<close> is the early
  \<open>return False\<close>. Both subscripts come from \<open>range(1, len - 1)\<close> of the list they index,
  so they are in range and no \<open>IndexError\<close> can arise.
\<close>

fun row_cells_loop :: "string \<Rightarrow> nat list \<Rightarrow> char set \<Rightarrow> bool" where
  "row_cells_loop row [] heights = True"
| "row_cells_loop row (cell_idx # rest) heights =
     (if row ! cell_idx = CHR ''*'' then row_cells_loop row rest heights
      else if row ! cell_idx \<in> heights then False
      else row_cells_loop row rest (insert (row ! cell_idx) heights))"

fun rows_loop :: "string list \<Rightarrow> nat list \<Rightarrow> bool" where
  "rows_loop board [] = True"
| "rows_loop board (row_idx # rest) =
     (if row_cells_loop (board ! row_idx) (inner_range (length (board ! row_idx))) {}
      then rows_loop board rest else False)"

definition check_uniqueness_in_rows :: "string list \<Rightarrow> bool" where
  "check_uniqueness_in_rows board = rows_loop board (inner_range (length board))"

section \<open>check_uniqueness_in_columns\<close>

text \<open>
  Here \<open>col_idx\<close> ranges over the width of the first row, so \<open>board[0]\<close> raises on an empty
  board and \<open>board[row_idx][col_idx]\<close> raises on a shorter row.
\<close>

fun column_cells_loop :: "string list \<Rightarrow> nat \<Rightarrow> nat list \<Rightarrow> char set \<Rightarrow> py_error + bool" where
  "column_cells_loop board col_idx [] heights = Inr True"
| "column_cells_loop board col_idx (row_idx # rest) heights =
     (case py_get (board ! row_idx) col_idx of
        Inl e \<Rightarrow> Inl e
      | Inr cell \<Rightarrow>
          (if cell = CHR ''*'' then column_cells_loop board col_idx rest heights
           else if cell \<in> heights then Inr False
           else column_cells_loop board col_idx rest (insert cell heights)))"

fun columns_loop :: "string list \<Rightarrow> nat list \<Rightarrow> py_error + bool" where
  "columns_loop board [] = Inr True"
| "columns_loop board (col_idx # rest) =
     (case column_cells_loop board col_idx (inner_range (length board)) {} of
        Inl e \<Rightarrow> Inl e
      | Inr ok \<Rightarrow> (if ok then columns_loop board rest else Inr False))"

definition check_uniqueness_in_columns :: "string list \<Rightarrow> py_error + bool" where
  "check_uniqueness_in_columns board =
     (case board of
        [] \<Rightarrow> Inl IndexError
      | row0 # _ \<Rightarrow> columns_loop board (inner_range (length row0)))"

section \<open>check_visibility\<close>

text \<open>\<open>curr_max\<close> starts as \<open>float('-inf')\<close>, below every height, and then holds a height.\<close>

datatype running_max = NegInf | Height int

fun exceeds :: "int \<Rightarrow> running_max \<Rightarrow> bool" where
  "exceeds h NegInf = True"
| "exceeds h (Height m) = (m < h)"

text \<open>The \<open>while idx < len(heights)\<close> loop of the leftmost hint.\<close>

function left_scan :: "int list \<Rightarrow> nat \<Rightarrow> int \<Rightarrow> running_max \<Rightarrow> int" where
  "left_scan heights idx count curr_max =
     (if idx < length heights then
        (if exceeds (heights ! idx) curr_max
         then left_scan heights (idx + 1) (count + 1) (Height (heights ! idx))
         else left_scan heights (idx + 1) count curr_max)
      else count)"
  by pat_completeness auto
termination
  by (relation "measure (\<lambda>(heights, idx, count, curr_max). length heights - idx)") auto

text \<open>
  The \<open>while idx >= 0\<close> loop of the rightmost hint; \<open>idx\<close> is an integer that ends at -1.
  A subscript at or beyond the length would raise.
\<close>

function right_scan :: "int list \<Rightarrow> int \<Rightarrow> int \<Rightarrow> running_max \<Rightarrow> py_error + int" where
  "right_scan heights idx count curr_max =
     (if 0 \<le> idx then
        (if idx < int (length heights) then
           (if exceeds (heights ! nat idx) curr_max
            then right_scan heights (idx - 1) (count + 1) (Height (heights ! nat idx))
            else right_scan heights (idx - 1) count curr_max)
         else Inl IndexError)
      else Inr count)"
  by pat_completeness auto
termination
  by (relation "measure (\<lambda>(heights, idx, count, curr_max). nat (idx + 1))") auto

declare left_scan.simps [simp del] right_scan.simps [simp del]

text \<open>
  The two \<open>if\<close> blocks of the function: each yields \<open>False\<close> where the source returns
  \<open>False\<close>, and \<open>True\<close> where control falls through. \<open>line[1:-1]\<close> is \<open>butlast (tl line)\<close>,
  empty for a line of fewer than three cells.
\<close>

definition left_hint :: "string \<Rightarrow> int list \<Rightarrow> py_error + bool" where
  "left_hint line heights =
     (case line of
        [] \<Rightarrow> Inl IndexError
      | first # _ \<Rightarrow>
          (if first \<noteq> CHR ''*'' then
             (let count = left_scan heights 0 0 NegInf
              in case py_int first of
                   Inl e \<Rightarrow> Inl e
                 | Inr hint \<Rightarrow> Inr (\<not> count \<noteq> hint))
           else Inr True))"

definition right_hint :: "string \<Rightarrow> int list \<Rightarrow> py_error + bool" where
  "right_hint line heights =
     (case line of
        [] \<Rightarrow> Inl IndexError
      | _ # _ \<Rightarrow>
          (if last line \<noteq> CHR ''*'' then
             (case right_scan heights (int (length heights) - 1) 0 NegInf of
                Inl e \<Rightarrow> Inl e
              | Inr count \<Rightarrow>
                  (case py_int (last line) of
                     Inl e \<Rightarrow> Inl e
                   | Inr hint \<Rightarrow> Inr (\<not> count \<noteq> hint)))
           else Inr True))"

definition check_visibility :: "string \<Rightarrow> py_error + bool" where
  "check_visibility line =
     (case map_int (butlast (tl line)) of
        Inl e \<Rightarrow> Inl e
      | Inr heights \<Rightarrow>
          (case left_hint line heights of
             Inl e \<Rightarrow> Inl e
           | Inr ok \<Rightarrow> (if \<not> ok then Inr False else right_hint line heights)))"

section \<open>check_horizontal_visibility and check_vertical_visibility\<close>

fun horizontal_loop :: "string list \<Rightarrow> nat list \<Rightarrow> py_error + bool" where
  "horizontal_loop board [] = Inr True"
| "horizontal_loop board (row_idx # rest) =
     (case check_visibility (board ! row_idx) of
        Inl e \<Rightarrow> Inl e
      | Inr ok \<Rightarrow> (if \<not> ok then Inr False else horizontal_loop board rest))"

definition check_horizontal_visibility :: "string list \<Rightarrow> py_error + bool" where
  "check_horizontal_visibility board = horizontal_loop board (inner_range (length board))"

text \<open>The comprehension that builds a column: one cell of every row, top to bottom.\<close>

fun column :: "string list \<Rightarrow> nat \<Rightarrow> py_error + string" where
  "column [] col_idx = Inr []"
| "column (row # rows) col_idx =
     (case py_get row col_idx of
        Inl e \<Rightarrow> Inl e
      | Inr cell \<Rightarrow> (case column rows col_idx of Inl e \<Rightarrow> Inl e | Inr cells \<Rightarrow> Inr (cell # cells)))"

fun vertical_loop :: "string list \<Rightarrow> nat list \<Rightarrow> py_error + bool" where
  "vertical_loop board [] = Inr True"
| "vertical_loop board (col_idx # rest) =
     (case column board col_idx of
        Inl e \<Rightarrow> Inl e
      | Inr line \<Rightarrow>
          (case check_visibility line of
             Inl e \<Rightarrow> Inl e
           | Inr ok \<Rightarrow> (if \<not> ok then Inr False else vertical_loop board rest)))"

definition check_vertical_visibility :: "string list \<Rightarrow> py_error + bool" where
  "check_vertical_visibility board =
     (case board of
        [] \<Rightarrow> Inl IndexError
      | row0 # _ \<Rightarrow> vertical_loop board (inner_range (length row0)))"

section \<open>check_skyscrapers\<close>

text \<open>
  \<open>is_unique\<close> is an \<open>and\<close>: the column check runs only when the row check gave \<open>True\<close>.
  Both visibility checks run before their results are combined.
\<close>

definition check_skyscrapers :: "file_system \<Rightarrow> string \<Rightarrow> py_error + bool" where
  "check_skyscrapers fs input_path =
     (case read_input fs input_path of
        Inl e \<Rightarrow> Inl e
      | Inr board \<Rightarrow>
          (let is_finished = check_not_finished_board board
           in case (if check_uniqueness_in_rows board
                    then check_uniqueness_in_columns board else Inr False) of
                Inl e \<Rightarrow> Inl e
              | Inr is_unique \<Rightarrow>
                  (if \<not> (is_finished \<and> is_unique) then Inr False
                   else
                     (case check_horizontal_visibility board of
                        Inl e \<Rightarrow> Inl e
                      | Inr is_horizontally_valid \<Rightarrow>
                          (case check_vertical_visibility board of
                             Inl e \<Rightarrow> Inl e
                           | Inr is_vertically_valid \<Rightarrow>
                               Inr (is_horizontally_valid \<and> is_vertically_valid))))))"

section \<open>Notions of the specification\<close>

text \<open>
  The interior of a board: every row but the first and the last, and of each of these every
  cell but the first and the last.
\<close>

definition interior :: "string list \<Rightarrow> string list" where
  "interior board = map (\<lambda>row. butlast (tl row)) (butlast (tl board))"

text \<open>The specification's reading of completeness: some interior cell holds \<open>?\<close>.\<close>

definition spec_interior_unknown :: "string list \<Rightarrow> bool" where
  "spec_interior_unknown board = (\<exists>row \<in> set (interior board). CHR ''?'' \<in> set row)"

text \<open>A height digit is one of \<open>1\<close> to \<open>9\<close>.\<close>

definition is_height_digit :: "char \<Rightarrow> bool" where
  "is_height_digit c = (let n = (of_char c :: nat) in 49 \<le> n \<and> n \<le> 57)"

text \<open>
  The specification's reading of a row failure: some interior row holds the same height
  digit twice among its interior cells.
\<close>

definition spec_duplicate_height_in_row :: "string list \<Rightarrow> bool" where
  "spec_duplicate_height_in_row board =
     (\<exists>row \<in> set (interior board). \<not> distinct (filter is_height_digit row))"

text \<open>The value \<open>int\<close> gives a digit.\<close>

definition digit_value :: "char \<Rightarrow> int" where
  "digit_value c = int (of_char c) - 48"

text \<open>
  Visibility as the glossary has it: a building is visible from the near end of a line when
  it is taller than every building before it. The count of the visible buildings:
\<close>

definition spec_visible_count :: "int list \<Rightarrow> nat" where
  "spec_visible_count hs =
     length (filter (\<lambda>i. \<forall>x \<in> set (take i hs). x < hs ! i) [0 ..< length hs])"

text \<open>
  The scan of both loops as a recursion over the heights still to visit; it links the
  index loops to \<open>spec_visible_count\<close>.
\<close>

fun count_from :: "running_max \<Rightarrow> int list \<Rightarrow> int" where
  "count_from m [] = 0"
| "count_from m (h # hs) =
     (if exceeds h m then 1 + count_from (Height h) hs else count_from m hs)"

text \<open>
  The specification's reading of the loader: only trailing whitespace leaves a line.
\<close>

definition spec_rstrip :: "string \<Rightarrow> string" where
  "spec_rstrip s = rev (dropWhile is_space (rev s))"

text \<open>
  A well-formed square board, in the words of the specification: at least one row, every
  row as long as the board is high, border cells a hint digit or \<open>*\<close>, interior cells a
  height digit or \<open>?\<close>.
\<close>

definition hint_cell :: "char \<Rightarrow> bool" where
  "hint_cell c = (is_height_digit c \<or> c = CHR ''*'')"

definition height_cell :: "char \<Rightarrow> bool" where
  "height_cell c = (is_height_digit c \<or> c = CHR ''?'')"

definition well_formed_board :: "string list \<Rightarrow> bool" where
  "well_formed_board board =
     (board \<noteq> [] \<and>
      (\<forall>row \<in> set board. length row = length board) \<and>
      list_all hint_cell (hd board) \<and>
      list_all hint_cell (last board) \<and>
      (\<forall>row \<in> set (butlast (tl board)).
         hint_cell (hd row) \<and> hint_cell (last row) \<and> list_all height_cell (butlast (tl row))))"

text \<open>The two boards of the scenarios, and a file that holds a list of rows.\<close>

definition scenario_board :: "string list" where
  "scenario_board =
     [''***21**'', ''412453*'', ''423145*'', ''*543215'', ''*35214*'', ''*41532*'', ''*2*1***'']"

definition scenario_board_duplicate :: "string list" where
  "scenario_board_duplicate =
     [''***21**'', ''452453*'', ''423145*'', ''*543215'', ''*35214*'', ''*41532*'', ''*2*1***'']"

definition file_text :: "string list \<Rightarrow> string" where
  "file_text rows = concat (map (\<lambda>row. row @ [CHR 0x0A]) rows)"

section \<open>Completeness\<close>

lemma row_has_unknown_iff: "row_has_unknown row = (CHR ''?'' \<in> set row)"
  by (induction row) auto

lemma check_not_finished_board_iff:
  "check_not_finished_board board = (\<forall>row \<in> set board. CHR ''?'' \<notin> set row)"
  by (induction board) (auto simp: row_has_unknown_iff)

lemma set_inner_subset: "set (butlast (tl xs)) \<subseteq> set xs"
  by (metis in_set_butlastD list.sel(2) list.set_sel(2) subsetI)

lemma interior_cell_in_board:
  assumes "row \<in> set (interior board)" and "c \<in> set row"
  shows "\<exists>row' \<in> set board. c \<in> set row'"
proof -
  from assms(1) obtain row' where r: "row' \<in> set (butlast (tl board))" and e: "row = butlast (tl row')"
    by (auto simp: interior_def)
  from r have "row' \<in> set board"
    by (rule subsetD [OF set_inner_subset])
  moreover from assms(2) e have "c \<in> set row'"
    by (simp add: subsetD [OF set_inner_subset])
  ultimately show ?thesis by (rule bexI [rotated])
qed

text \<open>
  Claim C3, as amended. \<open>check_not_finished_board\<close> returns \<open>True\<close> if and only if no cell
  of the board, border cells included, holds the unknown marker \<open>?\<close>; in particular it
  returns \<open>False\<close> on every board with an unknown marker in an interior cell.
\<close>

theorem check_not_finished_board_all_cells:
  "(check_not_finished_board board \<longleftrightarrow> (\<forall>row \<in> set board. CHR ''?'' \<notin> set row)) \<and>
   (spec_interior_unknown board \<longrightarrow> check_not_finished_board board = False)"
proof (intro conjI impI)
  show "check_not_finished_board board \<longleftrightarrow> (\<forall>row \<in> set board. CHR ''?'' \<notin> set row)"
    by (rule check_not_finished_board_iff)
next
  assume "spec_interior_unknown board"
  then obtain row where "row \<in> set (interior board)" "CHR ''?'' \<in> set row"
    by (auto simp: spec_interior_unknown_def)
  then have "\<exists>row' \<in> set board. CHR ''?'' \<in> set row'"
    by (rule interior_cell_in_board)
  then show "check_not_finished_board board = False"
    by (simp add: check_not_finished_board_iff)
qed

text \<open>
  The claim as written restricts the test to interior cells. A board whose only \<open>?\<close> is a
  border cell has no interior unknown marker, and the function returns \<open>False\<close> on it.
\<close>

theorem check_not_finished_board_border_counterexample:
  "check_not_finished_board [''?**'', ''*1*'', ''***''] = False \<and>
   \<not> spec_interior_unknown [''?**'', ''*1*'', ''***'']"
  by (simp add: spec_interior_unknown_def interior_def)

theorem check_not_finished_board_all_cells_witness:
  "spec_interior_unknown [''***'', ''*?*'', ''***''] \<and>
   check_not_finished_board [''***'', ''*?*'', ''***''] = False \<and>
   check_not_finished_board [''***'', ''*1*'', ''***''] = True"
proof -
  have u: "spec_interior_unknown [''***'', ''*?*'', ''***'']"
    by (simp add: spec_interior_unknown_def interior_def)
  have "check_not_finished_board [''***'', ''*?*'', ''***''] = False"
    using check_not_finished_board_all_cells [of "[''***'', ''*?*'', ''***'']"] u by simp
  moreover have "check_not_finished_board [''***'', ''*1*'', ''***''] = True"
    using check_not_finished_board_all_cells [of "[''***'', ''*1*'', ''***'']"] by simp
  ultimately show ?thesis using u by simp
qed

section \<open>Uniqueness in rows\<close>

lemma row_cells_loop_iff:
  "row_cells_loop row idxs heights =
     (distinct (filter (\<lambda>c. c \<noteq> CHR ''*'') (map ((!) row) idxs)) \<and>
      set (filter (\<lambda>c. c \<noteq> CHR ''*'') (map ((!) row) idxs)) \<inter> heights = {})"
  by (induction idxs arbitrary: heights) auto

lemma map_nth_inner_range: "map ((!) xs) (inner_range (length xs)) = butlast (tl xs)"
  by (rule nth_equalityI) (auto simp: inner_range_def nth_butlast nth_tl)

lemma rows_loop_iff:
  "rows_loop board idxs =
     (\<forall>i \<in> set idxs. distinct (filter (\<lambda>c. c \<noteq> CHR ''*'') (butlast (tl (board ! i)))))"
  by (induction idxs) (simp_all add: row_cells_loop_iff map_nth_inner_range)

lemma check_uniqueness_in_rows_iff:
  "check_uniqueness_in_rows board =
     (\<forall>row \<in> set (interior board). distinct (filter (\<lambda>c. c \<noteq> CHR ''*'') row))"
proof -
  have "set (butlast (tl board)) = (!) board ` set (inner_range (length board))"
    by (metis map_nth_inner_range set_map)
  then show ?thesis
    by (simp add: check_uniqueness_in_rows_def rows_loop_iff interior_def)
qed

text \<open>
  Claim C5, as amended. \<open>check_uniqueness_in_rows\<close> returns \<open>False\<close> if and only if some
  interior row holds the same character other than the filler \<open>*\<close> twice among its interior
  cells (a height digit, but also \<open>?\<close> or any other character); the result depends on the
  interior only, so border rows and border cells never affect it.
\<close>

theorem check_uniqueness_in_rows_non_filler:
  "(check_uniqueness_in_rows board = False \<longleftrightarrow>
      (\<exists>row \<in> set (interior board). \<not> distinct (filter (\<lambda>c. c \<noteq> CHR ''*'') row))) \<and>
   (interior board' = interior board \<longrightarrow>
      check_uniqueness_in_rows board' = check_uniqueness_in_rows board)"
proof (intro conjI impI)
  show "check_uniqueness_in_rows board = False \<longleftrightarrow>
      (\<exists>row \<in> set (interior board). \<not> distinct (filter (\<lambda>c. c \<noteq> CHR ''*'') row))"
    by (simp add: check_uniqueness_in_rows_iff)
next
  assume "interior board' = interior board"
  then show "check_uniqueness_in_rows board' = check_uniqueness_in_rows board"
    by (simp only: check_uniqueness_in_rows_iff)
qed

text \<open>
  The claim as written counts height digits only. A row with two unknown markers repeats
  no height digit, and the function returns \<open>False\<close> on it.
\<close>

theorem check_uniqueness_in_rows_unknown_counterexample:
  "check_uniqueness_in_rows [''****'', ''*??*'', ''*12*'', ''****''] = False \<and>
   \<not> spec_duplicate_height_in_row [''****'', ''*??*'', ''*12*'', ''****'']"
  by code_simp

theorem check_uniqueness_in_rows_non_filler_witness:
  "interior [''*9*9'', ''71*1'', ''9*9*''] = interior [''****'', ''*1*3'', ''****''] \<and>
   check_uniqueness_in_rows [''*9*9'', ''71*1'', ''9*9*''] = True \<and>
   check_uniqueness_in_rows [''*****'', ''*2*2*'', ''*****''] = False"
proof -
  have i: "interior [''*9*9'', ''71*1'', ''9*9*''] = interior [''****'', ''*1*3'', ''****'']"
    by (simp add: interior_def)
  have t: "check_uniqueness_in_rows [''****'', ''*1*3'', ''****''] = True"
    by code_simp
  have d: "\<exists>row \<in> set (interior [''*****'', ''*2*2*'', ''*****'']). \<not> distinct (filter (\<lambda>c. c \<noteq> CHR ''*'') row)"
    by (simp add: interior_def)
  from check_uniqueness_in_rows_non_filler
         [of "[''****'', ''*1*3'', ''****'']" "[''*9*9'', ''71*1'', ''9*9*'']"] i t
  have "check_uniqueness_in_rows [''*9*9'', ''71*1'', ''9*9*''] = True" by simp
  moreover from check_uniqueness_in_rows_non_filler
         [of "[''*****'', ''*2*2*'', ''*****'']" "[]"] d
  have "check_uniqueness_in_rows [''*****'', ''*2*2*'', ''*****''] = False" by simp
  ultimately show ?thesis using i by simp
qed

section \<open>Visibility of one line\<close>

lemma left_scan_count_from:
  "idx \<le> length heights \<Longrightarrow>
   left_scan heights idx count curr_max = count + count_from curr_max (drop idx heights)"
proof (induction heights idx count curr_max rule: left_scan.induct)
  case (1 heights idx count curr_max)
  show ?case
  proof (cases "idx < length heights")
    case True
    then have d: "drop idx heights = heights ! idx # drop (Suc idx) heights"
      by (simp add: Cons_nth_drop_Suc)
    from True have le: "idx + 1 \<le> length heights" by simp
    show ?thesis
    proof (cases "exceeds (heights ! idx) curr_max")
      case e: True
      from "1.IH"(1) [OF True e le] True e d show ?thesis
        by (subst left_scan.simps) simp
    next
      case e: False
      from "1.IH"(2) [OF True e le] True e d show ?thesis
        by (subst left_scan.simps) simp
    qed
  next
    case False
    with "1.prems" have "idx = length heights" by simp
    then show ?thesis by (subst left_scan.simps) simp
  qed
qed

lemma right_scan_count_from:
  "- 1 \<le> idx \<Longrightarrow> idx < int (length heights) \<Longrightarrow>
   right_scan heights idx count curr_max =
     Inr (count + count_from curr_max (rev (take (nat (idx + 1)) heights)))"
proof (induction heights idx count curr_max rule: right_scan.induct)
  case (1 heights idx count curr_max)
  show ?case
  proof (cases "0 \<le> idx")
    case True
    with "1.prems" have lt: "nat idx < length heights" by simp
    from True have n: "nat (idx + 1) = Suc (nat idx)" by simp
    have t: "rev (take (nat (idx + 1)) heights) = heights ! nat idx # rev (take (nat idx) heights)"
      by (simp add: n take_Suc_conv_app_nth [OF lt])
    from True have p: "- 1 \<le> idx - 1" "idx - 1 < int (length heights)" "nat (idx - 1 + 1) = nat idx"
      using "1.prems" by simp_all
    show ?thesis
    proof (cases "exceeds (heights ! nat idx) curr_max")
      case e: True
      from "1.IH"(1) [OF True "1.prems"(2) e p(1,2)] True "1.prems"(2) e t p(3) show ?thesis
        by (subst right_scan.simps) simp
    next
      case e: False
      from "1.IH"(2) [OF True "1.prems"(2) e p(1,2)] True "1.prems"(2) e t p(3) show ?thesis
        by (subst right_scan.simps) simp
    qed
  next
    case False
    with "1.prems" have "idx = - 1" by simp
    then show ?thesis by (subst right_scan.simps) simp
  qed
qed

lemma count_from_snoc:
  "count_from m (hs @ [h]) =
     count_from m hs + (if exceeds h m \<and> (\<forall>x \<in> set hs. x < h) then 1 else 0)"
proof (induction hs arbitrary: m)
  case Nil
  show ?case by simp
next
  case (Cons a hs)
  show ?case
  proof (cases "exceeds a m")
    case True
    then have "exceeds h m" if "a < h" using that by (cases m) auto
    with True Cons [of "Height a"] show ?thesis by auto
  next
    case False
    then have "a < h" if "exceeds h m" using that by (cases m) auto
    with False Cons [of m] show ?thesis by auto
  qed
qed

lemma spec_visible_count_snoc:
  "spec_visible_count (hs @ [h]) =
     spec_visible_count hs + (if \<forall>x \<in> set hs. x < h then 1 else 0)"
proof -
  have "filter (\<lambda>i. \<forall>x \<in> set (take i (hs @ [h])). x < (hs @ [h]) ! i) [0 ..< length hs] =
        filter (\<lambda>i. \<forall>x \<in> set (take i hs). x < hs ! i) [0 ..< length hs]"
    by (rule filter_cong) (auto simp: nth_append)
  then show ?thesis
    by (simp add: spec_visible_count_def)
qed

lemma count_from_visible: "count_from NegInf hs = int (spec_visible_count hs)"
proof (induction hs rule: rev_induct)
  case Nil
  show ?case by (simp add: spec_visible_count_def)
next
  case (snoc h hs)
  then show ?case
    by (simp add: count_from_snoc spec_visible_count_snoc)
qed

lemma left_scan_visible: "left_scan heights 0 0 NegInf = int (spec_visible_count heights)"
  using left_scan_count_from [of 0 heights 0 NegInf] by (simp add: count_from_visible)

lemma right_scan_visible:
  "right_scan heights (int (length heights) - 1) 0 NegInf =
     Inr (int (spec_visible_count (rev heights)))"
  using right_scan_count_from [of "int (length heights) - 1" heights 0 NegInf]
  by (simp add: count_from_visible)

lemma spec_visible_count_increasing:
  "sorted_wrt (<) hs \<Longrightarrow> spec_visible_count hs = length hs"
proof (induction hs rule: rev_induct)
  case Nil
  show ?case by (simp add: spec_visible_count_def)
next
  case (snoc h hs)
  then show ?case
    by (simp add: spec_visible_count_snoc sorted_wrt_append)
qed

lemma py_int_digit: "is_digit c \<Longrightarrow> py_int c = Inr (digit_value c)"
  by (simp add: py_int_def digit_value_def)

lemma py_int_non_digit: "\<not> is_digit c \<Longrightarrow> py_int c = Inl ValueError"
  by (simp add: py_int_def)

lemma map_int_digits: "list_all is_digit cells \<Longrightarrow> map_int cells = Inr (map digit_value cells)"
  by (induction cells) (simp_all add: py_int_digit)

lemma map_int_non_digit: "\<not> list_all is_digit cells \<Longrightarrow> map_int cells = Inl ValueError"
proof (induction cells)
  case Nil
  then show ?case by simp
next
  case (Cons c cells)
  then show ?case
    by (cases "is_digit c") (simp_all add: py_int_digit py_int_non_digit)
qed

lemma right_scan_visible_map:
  "right_scan (map f cells) (int (length cells) - 1) 0 NegInf =
     Inr (int (spec_visible_count (rev (map f cells))))"
  using right_scan_visible [of "map f cells"] by simp

lemma star_not_digit: "\<not> is_digit (CHR ''*'')"
  by (simp add: is_digit_def)

lemma check_visibility_digits:
  assumes "list_all is_digit cells"
  shows "check_visibility (l # cells @ [r]) =
     (if l \<noteq> CHR ''*'' \<and> \<not> is_digit l then Inl ValueError
      else if l \<noteq> CHR ''*'' \<and> int (spec_visible_count (map digit_value cells)) \<noteq> digit_value l
        then Inr False
      else if r = CHR ''*'' then Inr True
      else if \<not> is_digit r then Inl ValueError
      else Inr (int (spec_visible_count (rev (map digit_value cells))) = digit_value r))"
proof -
  have m: "map_int (butlast (tl (l # cells @ [r]))) = Inr (map digit_value cells)"
    using assms by (simp add: map_int_digits)
  have lh: "left_hint (l # cells @ [r]) (map digit_value cells) =
      (if l \<noteq> CHR ''*'' then
         (if is_digit l
          then Inr (int (spec_visible_count (map digit_value cells)) = digit_value l)
          else Inl ValueError)
       else Inr True)"
    by (simp add: left_hint_def left_scan_visible py_int_digit py_int_non_digit)
  have rh: "right_hint (l # cells @ [r]) (map digit_value cells) =
      (if r \<noteq> CHR ''*'' then
         (if is_digit r
          then Inr (int (spec_visible_count (rev (map digit_value cells))) = digit_value r)
          else Inl ValueError)
       else Inr True)"
    by (simp add: right_hint_def right_scan_visible_map py_int_digit py_int_non_digit)
  show ?thesis
    by (simp only: check_visibility_def m lh rh sum.case) (simp add: star_not_digit)
qed

lemma line_decompose:
  assumes "2 \<le> length line"
  shows "line = hd line # butlast (tl line) @ [last line]"
proof (cases line)
  case Nil
  with assms show ?thesis by simp
next
  case (Cons l rest)
  with assms have "rest \<noteq> []" by auto
  with Cons show ?thesis by simp
qed

text \<open>
  Claim C2. On a line made of a border cell, interior height digits and a border cell, where
  each border cell is a hint digit or the filler \<open>*\<close>, \<open>check_visibility\<close> returns a boolean:
  the line is valid if and only if each side that bears a hint digit H sees exactly H
  buildings, counted from that side inward as the heights strictly greater than all
  heights before them. The two sides are tested independently of each other.
\<close>

theorem check_visibility_hints:
  assumes "list_all is_digit cells"
    and "is_digit l \<or> l = CHR ''*''"
    and "is_digit r \<or> r = CHR ''*''"
  shows "check_visibility (l # cells @ [r]) =
     Inr ((l = CHR ''*'' \<or> int (spec_visible_count (map digit_value cells)) = digit_value l) \<and>
          (r = CHR ''*'' \<or> int (spec_visible_count (rev (map digit_value cells))) = digit_value r))"
  using assms(2,3) by (auto simp: check_visibility_digits [OF assms(1)])

theorem check_visibility_hints_witness:
  "list_all is_digit ''12354'' \<and> is_digit (CHR ''4'') \<and> is_digit (CHR ''2'') \<and>
   check_visibility ''4123542'' = Inr True \<and>
   check_visibility ''312354*'' = Inr False"
proof -
  have d: "list_all is_digit ''12354''" "is_digit (CHR ''4'')" "is_digit (CHR ''2'')"
    "is_digit (CHR ''3'')"
    by (simp_all add: is_digit_def)
  have v: "spec_visible_count (map digit_value ''12354'') = 4"
    "spec_visible_count (rev (map digit_value ''12354'')) = 2"
    by code_simp+
  have dv: "digit_value (CHR ''4'') = 4" "digit_value (CHR ''2'') = 2" "digit_value (CHR ''3'') = 3"
    by (simp_all add: digit_value_def)
  have "check_visibility ''4123542'' = Inr True"
    using check_visibility_hints [of "''12354''" "CHR ''4''" "CHR ''2''"] d v dv by simp
  moreover have "check_visibility ''312354*'' = Inr False"
    using check_visibility_hints [of "''12354''" "CHR ''3''" "CHR ''*''"] d v dv by simp
  ultimately show ?thesis using d by simp
qed

lemma check_visibility_line_returns:
  assumes "2 \<le> length line" and "list_all is_digit (butlast (tl line))"
    and "is_digit (hd line) \<or> hd line = CHR ''*''"
    and "is_digit (last line) \<or> last line = CHR ''*''"
  shows "\<exists>b. check_visibility line = Inr b"
proof -
  from assms(1) have "line = hd line # butlast (tl line) @ [last line]"
    by (rule line_decompose)
  then have "check_visibility line = check_visibility (hd line # butlast (tl line) @ [last line])"
    by simp
  also from assms(2-4) have "\<dots> =
     (if hd line \<noteq> CHR ''*'' \<and>
         int (spec_visible_count (map digit_value (butlast (tl line)))) \<noteq> digit_value (hd line)
        then Inr False
      else if last line = CHR ''*'' then Inr True
      else Inr (int (spec_visible_count (rev (map digit_value (butlast (tl line))))) =
                digit_value (last line)))"
    by (auto simp: check_visibility_digits)
  finally show ?thesis
    by (auto split: if_splits)
qed

text \<open>
  Claim C10, as amended. On every line of length at least 2 whose interior cells are all
  decimal digits and whose two border cells are each a decimal digit or \<open>*\<close>,
  \<open>check_visibility\<close> returns a boolean. On every line with an interior cell that is not a
  digit it raises \<open>ValueError\<close> instead of returning \<open>False\<close>.
\<close>

theorem check_visibility_returns:
  "(2 \<le> length line \<and> list_all is_digit (butlast (tl line)) \<and>
    (is_digit (hd line) \<or> hd line = CHR ''*'') \<and>
    (is_digit (last line) \<or> last line = CHR ''*'')
      \<longrightarrow> (\<exists>b. check_visibility line = Inr b)) \<and>
   (\<not> list_all is_digit (butlast (tl line)) \<longrightarrow> check_visibility line = Inl ValueError)"
proof (intro conjI impI)
  assume "2 \<le> length line \<and> list_all is_digit (butlast (tl line)) \<and>
    (is_digit (hd line) \<or> hd line = CHR ''*'') \<and>
    (is_digit (last line) \<or> last line = CHR ''*'')"
  then show "\<exists>b. check_visibility line = Inr b"
    by (intro check_visibility_line_returns) simp_all
next
  assume "\<not> list_all is_digit (butlast (tl line))"
  then show "check_visibility line = Inl ValueError"
    by (simp add: check_visibility_def map_int_non_digit)
qed

text \<open>
  The claim as written constrains the interior only. A border cell that is neither a digit
  nor \<open>*\<close> reaches \<open>int\<close> as well: the line below has length 4 and a digit interior, and
  the function raises.
\<close>

theorem check_visibility_border_counterexample:
  "2 \<le> length ''?12*'' \<and> list_all is_digit (butlast (tl ''?12*'')) \<and>
   check_visibility ''?12*'' = Inl ValueError"
  by code_simp

theorem check_visibility_returns_witness:
  "2 \<le> length ''*125342'' \<and> list_all is_digit (butlast (tl ''*125342'')) \<and>
   (\<exists>b. check_visibility ''*125342'' = Inr b) \<and>
   \<not> list_all is_digit (butlast (tl ''41?3*'')) \<and>
   check_visibility ''41?3*'' = Inl ValueError"
proof -
  have h: "2 \<le> length ''*125342'' \<and> list_all is_digit (butlast (tl ''*125342'')) \<and>
    (is_digit (hd ''*125342'') \<or> hd ''*125342'' = CHR ''*'') \<and>
    (is_digit (last ''*125342'') \<or> last ''*125342'' = CHR ''*'')"
    by (simp add: is_digit_def)
  have n: "\<not> list_all is_digit (butlast (tl ''41?3*''))"
    by (simp add: is_digit_def)
  from check_visibility_returns [of "''*125342''"] h
  have "\<exists>b. check_visibility ''*125342'' = Inr b" by blast
  moreover from check_visibility_returns [of "''41?3*''"] n
  have "check_visibility ''41?3*'' = Inl ValueError" by blast
  ultimately show ?thesis using h n by blast
qed

text \<open>
  Claim C7. On a sequence of K heights that is strictly increasing when read from one side,
  the scan from that side counts K visible buildings, and a line whose hint on that side
  is K passes the check of that side (the other side bearing no hint).
\<close>

theorem visible_count_increasing:
  "(sorted_wrt (<) heights \<longrightarrow> left_scan heights 0 0 NegInf = int (length heights)) \<and>
   (sorted_wrt (<) (rev heights) \<longrightarrow>
      right_scan heights (int (length heights) - 1) 0 NegInf = Inr (int (length heights))) \<and>
   (list_all is_digit cells \<and> sorted_wrt (<) (map digit_value cells) \<and>
    is_digit l \<and> digit_value l = int (length cells)
      \<longrightarrow> check_visibility (l # cells @ [CHR ''*'']) = Inr True) \<and>
   (list_all is_digit cells \<and> sorted_wrt (<) (rev (map digit_value cells)) \<and>
    is_digit r \<and> digit_value r = int (length cells)
      \<longrightarrow> check_visibility (CHR ''*'' # cells @ [r]) = Inr True)"
proof (intro conjI impI)
  assume "sorted_wrt (<) heights"
  then show "left_scan heights 0 0 NegInf = int (length heights)"
    by (simp add: left_scan_visible spec_visible_count_increasing)
next
  assume "sorted_wrt (<) (rev heights)"
  then show "right_scan heights (int (length heights) - 1) 0 NegInf = Inr (int (length heights))"
    using spec_visible_count_increasing [of "rev heights"] by (simp add: right_scan_visible)
next
  assume a: "list_all is_digit cells \<and> sorted_wrt (<) (map digit_value cells) \<and>
    is_digit l \<and> digit_value l = int (length cells)"
  then have "spec_visible_count (map digit_value cells) = length cells"
    using spec_visible_count_increasing [of "map digit_value cells"] by simp
  with a show "check_visibility (l # cells @ [CHR ''*'']) = Inr True"
    by (simp add: check_visibility_digits)
next
  assume a: "list_all is_digit cells \<and> sorted_wrt (<) (rev (map digit_value cells)) \<and>
    is_digit r \<and> digit_value r = int (length cells)"
  then have "spec_visible_count (rev (map digit_value cells)) = length cells"
    using spec_visible_count_increasing [of "rev (map digit_value cells)"] by simp
  with a show "check_visibility (CHR ''*'' # cells @ [r]) = Inr True"
    by (simp add: check_visibility_digits)
qed

theorem visible_count_increasing_witness:
  "sorted_wrt (<) [1, 3, 4 :: int] \<and> left_scan [1, 3, 4] 0 0 NegInf = 3 \<and>
   sorted_wrt (<) (rev [5, 2, 1 :: int]) \<and> right_scan [5, 2, 1] 2 0 NegInf = Inr 3 \<and>
   check_visibility ''3134*'' = Inr True \<and>
   check_visibility ''*5213'' = Inr True"
proof -
  have s: "sorted_wrt (<) [1, 3, 4 :: int]" "sorted_wrt (<) (rev [5, 2, 1 :: int])"
    by simp_all
  have c: "list_all is_digit ''134'' \<and> sorted_wrt (<) (map digit_value ''134'') \<and>
    is_digit (CHR ''3'') \<and> digit_value (CHR ''3'') = int (length ''134'')"
    "list_all is_digit ''521'' \<and> sorted_wrt (<) (rev (map digit_value ''521'')) \<and>
    is_digit (CHR ''3'') \<and> digit_value (CHR ''3'') = int (length ''521'')"
    by (simp_all add: is_digit_def digit_value_def)
  note t1 = visible_count_increasing [of "[1, 3, 4]" "''134''" "CHR ''3''" "CHR ''3''"]
  note t2 = visible_count_increasing [of "[5, 2, 1]" "''521''" "CHR ''3''" "CHR ''3''"]
  from t1 s(1) have "left_scan [1, 3, 4] 0 0 NegInf = 3" by simp
  moreover from t2 s(2) have "right_scan [5, 2, 1] 2 0 NegInf = Inr 3" by simp
  moreover from t1 c(1) have "check_visibility ''3134*'' = Inr True" by simp
  moreover from t2 c(2) have "check_visibility ''*5213'' = Inr True" by simp
  ultimately show ?thesis using s by simp
qed

section \<open>Reading the board\<close>

lemma strip_decompose:
  "\<exists>pre post. s = pre @ strip s @ post \<and> list_all is_space pre \<and> list_all is_space post"
proof -
  let ?d = "dropWhile is_space s"
  have 1: "s = takeWhile is_space s @ ?d" by simp
  have "strip s @ rev (takeWhile is_space (rev ?d)) =
        rev (takeWhile is_space (rev ?d) @ dropWhile is_space (rev ?d))"
    by (simp only: strip_def rev_append)
  also have "\<dots> = rev (rev ?d)"
    by (simp only: takeWhile_dropWhile_id)
  finally have 2: "?d = strip s @ rev (takeWhile is_space (rev ?d))"
    by simp
  have 3: "list_all is_space (takeWhile is_space s)"
    by (simp add: list_all_iff) (meson set_takeWhileD)
  have 4: "list_all is_space (rev (takeWhile is_space (rev ?d)))"
    by (simp add: list_all_iff) (meson set_takeWhileD)
  from 1 2 have "s = takeWhile is_space s @ strip s @ rev (takeWhile is_space (rev ?d))"
    by simp
  with 3 4 show ?thesis by blast
qed

lemma last_dropWhile_eq: "dropWhile P xs \<noteq> [] \<Longrightarrow> last (dropWhile P xs) = last xs"
  by (induction xs) (auto split: if_splits)

lemma strip_ends:
  assumes "strip s \<noteq> []"
  shows "\<not> is_space (hd (strip s)) \<and> \<not> is_space (last (strip s))"
proof -
  let ?d = "dropWhile is_space s"
  let ?e = "dropWhile is_space (rev ?d)"
  from assms have e: "?e \<noteq> []" by (simp add: strip_def)
  have d: "?d \<noteq> []"
  proof
    assume a: "?d = []"
    have "?e = []" by (simp add: a)
    with e show False by simp
  qed
  have "last (strip s) = hd ?e"
    using e by (simp add: strip_def last_rev)
  moreover have "\<not> is_space (hd ?e)"
    using e by (rule hd_dropWhile)
  moreover have "hd (strip s) = last ?e"
    using e by (simp add: strip_def hd_rev)
  moreover have "last ?e = last (rev ?d)"
    using e by (rule last_dropWhile_eq)
  moreover have "last (rev ?d) = hd ?d"
    using d by (simp add: last_rev)
  moreover have "\<not> is_space (hd ?d)"
    using d by (rule hd_dropWhile)
  ultimately show ?thesis by simp
qed

text \<open>
  Claim C4, as amended. For a readable path \<open>read_input\<close> returns one element for each line
  of the file, and each element is the raw line with its leading and its trailing
  whitespace removed: the raw line is the element between two runs of whitespace, and a
  non-empty element neither starts nor ends with whitespace.
\<close>

theorem read_input_strips_both_ends:
  assumes "fs path = Some text"
  shows "\<exists>board. read_input fs path = Inr board \<and>
           length board = length (readlines text) \<and>
           (\<forall>i < length board.
              (\<exists>pre post. readlines text ! i = pre @ board ! i @ post \<and>
                 list_all is_space pre \<and> list_all is_space post) \<and>
              (board ! i \<noteq> [] \<longrightarrow>
                 \<not> is_space (hd (board ! i)) \<and> \<not> is_space (last (board ! i))))"
proof -
  from assms have "read_input fs path = Inr (map strip (readlines text))"
    by (simp add: read_input_def)
  moreover have "\<forall>i < length (map strip (readlines text)).
      (\<exists>pre post. readlines text ! i = pre @ map strip (readlines text) ! i @ post \<and>
         list_all is_space pre \<and> list_all is_space post) \<and>
      (map strip (readlines text) ! i \<noteq> [] \<longrightarrow>
         \<not> is_space (hd (map strip (readlines text) ! i)) \<and>
         \<not> is_space (last (map strip (readlines text) ! i)))"
    using strip_decompose strip_ends by simp
  ultimately show ?thesis by simp
qed

text \<open>
  The claim as written keeps leading characters. A line that starts with a space loses it:
  the loader gives \<open>12\<close> where removing trailing whitespace alone gives \<open> 12\<close>.
\<close>

theorem read_input_leading_counterexample:
  "read_input [''board.txt'' \<mapsto> '' 12'' @ [CHR 0x0A]] ''board.txt'' = Inr [''12''] \<and>
   map spec_rstrip (readlines ('' 12'' @ [CHR 0x0A])) = ['' 12'']"
  by code_simp

theorem read_input_strips_both_ends_witness:
  "\<exists>board. read_input [''board.txt'' \<mapsto> '' *1* '' @ [CHR 0x0A] @ ''2**''] ''board.txt'' = Inr board \<and>
     length board = 2 \<and> board ! 0 \<noteq> [] \<and> \<not> is_space (hd (board ! 0))"
proof -
  have l: "length (readlines ('' *1* '' @ [CHR 0x0A] @ ''2**'')) = 2"
    by code_simp
  have r: "read_input [''board.txt'' \<mapsto> '' *1* '' @ [CHR 0x0A] @ ''2**''] ''board.txt'' =
      Inr [''*1*'', ''2**'']"
    by code_simp
  from read_input_strips_both_ends
    [of "[''board.txt'' \<mapsto> '' *1* '' @ [CHR 0x0A] @ ''2**'']" "''board.txt''"
        "'' *1* '' @ [CHR 0x0A] @ ''2**''"]
  obtain board where b:
    "read_input [''board.txt'' \<mapsto> '' *1* '' @ [CHR 0x0A] @ ''2**''] ''board.txt'' = Inr board"
    "length board = length (readlines ('' *1* '' @ [CHR 0x0A] @ ''2**''))"
    "\<forall>i < length board. (board ! i \<noteq> [] \<longrightarrow> \<not> is_space (hd (board ! i)))"
    by auto
  from b(1) r have e: "board = [''*1*'', ''2**'']" by simp
  from b(2) l have "length board = 2" by simp
  moreover from e have "board ! 0 \<noteq> []" by simp
  moreover from b(3) [rule_format, of 0] e have "\<not> is_space (hd (board ! 0))" by simp
  ultimately show ?thesis using b(1) by blast
qed

section \<open>Uniqueness in columns\<close>

lemma column_cells_loop_iff:
  assumes "\<forall>i \<in> set idxs. col_idx < length (board ! i)"
  shows "column_cells_loop board col_idx idxs heights =
     Inr (distinct (filter (\<lambda>c. c \<noteq> CHR ''*'') (map (\<lambda>i. board ! i ! col_idx) idxs)) \<and>
          set (filter (\<lambda>c. c \<noteq> CHR ''*'') (map (\<lambda>i. board ! i ! col_idx) idxs)) \<inter> heights = {})"
  using assms by (induction idxs arbitrary: heights) (auto simp: py_get_def)

lemma columns_loop_iff:
  assumes "\<forall>j \<in> set cols. \<forall>i \<in> set (inner_range (length board)). j < length (board ! i)"
  shows "columns_loop board cols =
     Inr (\<forall>j \<in> set cols. distinct (filter (\<lambda>c. c \<noteq> CHR ''*'')
            (map (\<lambda>i. board ! i ! j) (inner_range (length board)))))"
  using assms by (induction cols) (auto simp: column_cells_loop_iff)

lemma rows_loop_index_iff:
  "rows_loop board idxs =
     (\<forall>i \<in> set idxs. distinct (filter (\<lambda>c. c \<noteq> CHR ''*'')
        (map ((!) (board ! i)) (inner_range (length (board ! i))))))"
  by (simp add: rows_loop_iff map_nth_inner_range)

lemma inner_range_bounds: "i \<in> set (inner_range n) \<Longrightarrow> 1 \<le> i \<and> i < n - 1 \<and> i < n"
  by (auto simp: inner_range_def)

lemma check_uniqueness_in_columns_rectangle:
  assumes "board \<noteq> []" and "\<forall>row \<in> set board. length row = n"
  shows "check_uniqueness_in_columns board =
     Inr (\<forall>j \<in> set (inner_range n). distinct (filter (\<lambda>c. c \<noteq> CHR ''*'')
            (map (\<lambda>i. board ! i ! j) (inner_range (length board)))))"
proof -
  from assms obtain row0 rest where b: "board = row0 # rest" and n: "length row0 = n"
    by (cases board) auto
  have "\<forall>j \<in> set (inner_range n). \<forall>i \<in> set (inner_range (length board)). j < length (board ! i)"
  proof (intro ballI)
    fix j i
    assume j: "j \<in> set (inner_range n)" and i: "i \<in> set (inner_range (length board))"
    from i have "i < length board" by (simp add: inner_range_bounds)
    then have "board ! i \<in> set board" by simp
    with assms(2) have "length (board ! i) = n" by simp
    with j show "j < length (board ! i)" by (simp add: inner_range_bounds)
  qed
  then have "columns_loop board (inner_range n) =
     Inr (\<forall>j \<in> set (inner_range n). distinct (filter (\<lambda>c. c \<noteq> CHR ''*'')
            (map (\<lambda>i. board ! i ! j) (inner_range (length board)))))"
    by (rule columns_loop_iff)
  with b n show ?thesis
    by (simp add: check_uniqueness_in_columns_def)
qed

lemma check_uniqueness_in_rows_transpose:
  assumes "board \<noteq> []" and "\<forall>row \<in> set board. length row = n"
  shows "check_uniqueness_in_rows (transpose board) =
     (\<forall>j \<in> set (inner_range n). distinct (filter (\<lambda>c. c \<noteq> CHR ''*'')
        (map (\<lambda>i. board ! i ! j) (inner_range (length board)))))"
proof -
  have t: "transpose board = map (\<lambda>j. map (\<lambda>i. board ! i ! j) [0 ..< length board]) [0 ..< n]"
    using assms by (intro transpose_rectangle) auto
  then have len: "length (transpose board) = n" by simp
  have "\<And>j. j \<in> set (inner_range n) \<Longrightarrow>
      map ((!) (transpose board ! j)) (inner_range (length (transpose board ! j))) =
      map (\<lambda>i. board ! i ! j) (inner_range (length board))"
  proof -
    fix j
    assume "j \<in> set (inner_range n)"
    then have j: "j < n" by (simp add: inner_range_bounds)
    then have r: "transpose board ! j = map (\<lambda>i. board ! i ! j) [0 ..< length board]"
      by (simp add: t)
    then have l: "length (transpose board ! j) = length board" by simp
    show "map ((!) (transpose board ! j)) (inner_range (length (transpose board ! j))) =
      map (\<lambda>i. board ! i ! j) (inner_range (length board))"
      unfolding l by (rule map_cong) (simp_all add: r inner_range_bounds)
  qed
  then show ?thesis
    by (simp add: check_uniqueness_in_rows_def rows_loop_index_iff len)
qed

text \<open>The list without rows is no board: the width is read from the first row.\<close>

lemma check_uniqueness_in_columns_empty: "check_uniqueness_in_columns [] = Inl IndexError"
  by (simp add: check_uniqueness_in_columns_def)

text \<open>
  Claim C6. On every square board (a board has border rows, so at least one row; every row
  as long as the board is high) \<open>check_uniqueness_in_columns\<close> returns what
  \<open>check_uniqueness_in_rows\<close> returns on the transposed board. On the empty list the column
  check reads \<open>board[0]\<close> and raises, see \<open>check_uniqueness_in_columns_empty\<close>.
\<close>

theorem check_uniqueness_in_columns_transposed:
  assumes "board \<noteq> []" and "\<forall>row \<in> set board. length row = length board"
  shows "check_uniqueness_in_columns board = Inr (check_uniqueness_in_rows (transpose board))"
  using assms
  by (simp add: check_uniqueness_in_columns_rectangle [where n = "length board"]
      check_uniqueness_in_rows_transpose [where n = "length board"])

theorem check_uniqueness_in_columns_transposed_witness:
  "check_uniqueness_in_columns [''*2*'', ''*13'', ''***''] =
     Inr (check_uniqueness_in_rows (transpose [''*2*'', ''*13'', ''***''])) \<and>
   check_uniqueness_in_columns [''****'', ''*12*'', ''*32*'', ''****''] = Inr False \<and>
   check_uniqueness_in_rows (transpose [''****'', ''*12*'', ''*32*'', ''****'']) = False"
proof -
  have h1: "[''*2*'', ''*13'', ''***''] \<noteq> []"
    "\<forall>row \<in> set [''*2*'', ''*13'', ''***'']. length row = length [''*2*'', ''*13'', ''***'']"
    by simp_all
  have h2: "[''****'', ''*12*'', ''*32*'', ''****''] \<noteq> []"
    "\<forall>row \<in> set [''****'', ''*12*'', ''*32*'', ''****''].
       length row = length [''****'', ''*12*'', ''*32*'', ''****'']"
    by simp_all
  have c: "check_uniqueness_in_columns [''****'', ''*12*'', ''*32*'', ''****''] = Inr False"
    by code_simp
  note t1 = check_uniqueness_in_columns_transposed [OF h1]
  note t2 = check_uniqueness_in_columns_transposed [OF h2]
  from t2 c have "check_uniqueness_in_rows (transpose [''****'', ''*12*'', ''*32*'', ''****'']) = False"
    by simp
  with t1 c show ?thesis by simp
qed

section \<open>The whole validation\<close>

lemma height_digit_is_digit: "is_height_digit c \<Longrightarrow> is_digit c"
  by (simp add: is_height_digit_def is_digit_def Let_def)

lemma hint_cell_border: "hint_cell c \<Longrightarrow> is_digit c \<or> c = CHR ''*''"
  by (auto simp: hint_cell_def height_digit_is_digit)

lemma height_cell_digit: "height_cell c \<Longrightarrow> c \<noteq> CHR ''?'' \<Longrightarrow> is_digit c"
  by (auto simp: height_cell_def height_digit_is_digit)

lemma horizontal_loop_returns:
  "\<forall>i \<in> set idxs. \<exists>b. check_visibility (board ! i) = Inr b \<Longrightarrow>
   \<exists>b. horizontal_loop board idxs = Inr b"
  by (induction idxs) auto

lemma column_eq:
  "\<forall>row \<in> set board. j < length row \<Longrightarrow> column board j = Inr (map (\<lambda>row. row ! j) board)"
  by (induction board) (simp_all add: py_get_def)

lemma vertical_loop_returns:
  "\<forall>j \<in> set cols. (\<forall>row \<in> set board. j < length row) \<and>
       (\<exists>b. check_visibility (map (\<lambda>row. row ! j) board) = Inr b) \<Longrightarrow>
   \<exists>b. vertical_loop board cols = Inr b"
  by (induction cols) (auto simp: column_eq)

lemma inner_rows: "set (butlast (tl board)) = (!) board ` set (inner_range (length board))"
  by (metis map_nth_inner_range set_map)


lemma check_skyscrapers_on_board:
  assumes "read_input fs path = Inr board" and "check_uniqueness_in_columns board = Inr c"
  shows "check_skyscrapers fs path =
     (if \<not> check_not_finished_board board \<or> \<not> check_uniqueness_in_rows board \<or> \<not> c
      then Inr False
      else (case check_horizontal_visibility board of
              Inl e \<Rightarrow> Inl e
            | Inr h \<Rightarrow>
                (case check_vertical_visibility board of
                   Inl e \<Rightarrow> Inl e
                 | Inr v \<Rightarrow> Inr (h \<and> v))))"
  using assms by (simp add: check_skyscrapers_def)

lemma rectangle_columns_return:
  assumes "board \<noteq> []" and "\<forall>row \<in> set board. length row = n"
  shows "\<exists>c. check_uniqueness_in_columns board = Inr c"
  using check_uniqueness_in_columns_rectangle [OF assms] by simp

text \<open>
  Claim C1, as amended. For every board loaded from the path that has at least one row and
  whose rows all have the same length (every square board of the data model is one),
  \<open>check_skyscrapers\<close> returns \<open>False\<close> whenever the board is not complete or not unique in
  rows and columns, and otherwise returns the conjunction of the horizontal and the
  vertical visibility checks, both of which are run; an exception of a visibility check
  is passed on.
\<close>

theorem check_skyscrapers_orchestrates:
  assumes "read_input fs path = Inr board"
    and "board \<noteq> []" and "\<forall>row \<in> set board. length row = length (hd board)"
  shows "check_skyscrapers fs path =
     (if \<not> check_not_finished_board board \<or> \<not> check_uniqueness_in_rows board \<or>
         check_uniqueness_in_columns board = Inr False
      then Inr False
      else (case check_horizontal_visibility board of
              Inl e \<Rightarrow> Inl e
            | Inr is_horizontally_valid \<Rightarrow>
                (case check_vertical_visibility board of
                   Inl e \<Rightarrow> Inl e
                 | Inr is_vertically_valid \<Rightarrow>
                     Inr (is_horizontally_valid \<and> is_vertically_valid))))"
proof -
  from rectangle_columns_return [OF assms(2,3)]
  obtain c where c: "check_uniqueness_in_columns board = Inr c" ..
  show ?thesis
    unfolding check_skyscrapers_on_board [OF assms(1) c] c by simp
qed

text \<open>
  The claim as written speaks of every loaded board. No check looks at the shape of the
  board, and the column check reads every interior row at the columns of the first row: on
  the board below, which is not complete, the second row is too short and the call raises
  \<open>IndexError\<close> instead of returning \<open>False\<close>.
\<close>

theorem check_skyscrapers_ragged_counterexample:
  "read_input [''board.txt'' \<mapsto> file_text [''****'', ''*?'', ''****'']] ''board.txt'' =
     Inr [''****'', ''*?'', ''****''] \<and>
   check_not_finished_board [''****'', ''*?'', ''****''] = False \<and>
   check_skyscrapers [''board.txt'' \<mapsto> file_text [''****'', ''*?'', ''****'']] ''board.txt'' =
     Inl IndexError"
  by code_simp

text \<open>A file without lines gives the empty list, and the width of its first row is read.\<close>

lemma check_skyscrapers_empty_file:
  "check_skyscrapers [''board.txt'' \<mapsto> []] ''board.txt'' = Inl IndexError"
  by code_simp

theorem check_skyscrapers_orchestrates_witness:
  "read_input [''board.txt'' \<mapsto> file_text [''***'', ''*?*'', ''***'']] ''board.txt'' =
     Inr [''***'', ''*?*'', ''***''] \<and>
   check_not_finished_board [''***'', ''*?*'', ''***''] = False \<and>
   check_skyscrapers [''board.txt'' \<mapsto> file_text [''***'', ''*?*'', ''***'']] ''board.txt'' =
     Inr False"
proof -
  have r: "read_input [''board.txt'' \<mapsto> file_text [''***'', ''*?*'', ''***'']] ''board.txt'' =
     Inr [''***'', ''*?*'', ''***'']"
    by code_simp
  have n: "[''***'', ''*?*'', ''***''] \<noteq> []"
    and q: "\<forall>row \<in> set [''***'', ''*?*'', ''***'']. length row = length (hd [''***'', ''*?*'', ''***''])"
    and f: "check_not_finished_board [''***'', ''*?*'', ''***''] = False"
    by simp_all
  from check_skyscrapers_orchestrates [OF r n q] f r show ?thesis
    by simp
qed

lemma wf_rows_return:
  assumes wf: "well_formed_board board" and fin: "check_not_finished_board board"
  shows "\<exists>b. check_horizontal_visibility board = Inr b"
proof -
  have "\<forall>i \<in> set (inner_range (length board)). \<exists>b. check_visibility (board ! i) = Inr b"
  proof
    fix i
    assume i: "i \<in> set (inner_range (length board))"
    then have il: "i < length board" and n: "3 \<le> length board"
      by (auto simp: inner_range_def)
    from i have inner: "board ! i \<in> set (butlast (tl board))"
      by (simp add: inner_rows)
    from il have mem: "board ! i \<in> set board" by simp
    with wf have len: "length (board ! i) = length board"
      by (simp add: well_formed_board_def)
    from fin mem have nq: "CHR ''?'' \<notin> set (board ! i)"
      by (simp add: check_not_finished_board_iff)
    from wf inner have cells: "hint_cell (hd (board ! i))" "hint_cell (last (board ! i))"
      "list_all height_cell (butlast (tl (board ! i)))"
      by (simp_all add: well_formed_board_def)
    have "list_all is_digit (butlast (tl (board ! i)))"
      unfolding list_all_iff
    proof
      fix c
      assume c: "c \<in> set (butlast (tl (board ! i)))"
      with cells(3) have "height_cell c" by (simp add: list_all_iff)
      moreover from c have "c \<in> set (board ! i)"
        by (rule subsetD [OF set_inner_subset])
      with nq have "c \<noteq> CHR ''?''" by auto
      ultimately show "is_digit c" by (rule height_cell_digit)
    qed
    moreover from len n have "2 \<le> length (board ! i)" by simp
    ultimately show "\<exists>b. check_visibility (board ! i) = Inr b"
      using cells(1,2) by (intro check_visibility_line_returns hint_cell_border)
  qed
  then show ?thesis
    unfolding check_horizontal_visibility_def by (rule horizontal_loop_returns)
qed

lemma wf_columns_return:
  assumes wf: "well_formed_board board" and fin: "check_not_finished_board board"
  shows "\<exists>b. check_vertical_visibility board = Inr b"
proof -
  from wf have ne: "board \<noteq> []" and sq: "\<forall>row \<in> set board. length row = length board"
    and top: "list_all hint_cell (hd board)" and bot: "list_all hint_cell (last board)"
    and mid: "\<forall>row \<in> set (butlast (tl board)). list_all height_cell (butlast (tl row))"
    by (simp_all add: well_formed_board_def)
  from ne sq have hl: "length (hd board) = length board" and ll: "length (last board) = length board"
    by simp_all
  have "\<forall>j \<in> set (inner_range (length board)). (\<forall>row \<in> set board. j < length row) \<and>
       (\<exists>b. check_visibility (map (\<lambda>row. row ! j) board) = Inr b)"
  proof
    fix j
    assume j: "j \<in> set (inner_range (length board))"
    then have jl: "j < length board" and n: "3 \<le> length board"
      by (auto simp: inner_range_def)
    from jl sq have inr: "\<forall>row \<in> set board. j < length row" by simp
    let ?line = "map (\<lambda>row. row ! j) board"
    have l2: "2 \<le> length ?line" using n by simp
    have "hd ?line = hd board ! j" using ne by (simp add: hd_map)
    moreover have "hd board ! j \<in> set (hd board)" using jl hl by simp
    ultimately have h: "hint_cell (hd ?line)" using top by (simp add: list_all_iff)
    have "last ?line = last board ! j" using ne by (simp add: last_map)
    moreover have "last board ! j \<in> set (last board)" using jl ll by simp
    ultimately have l: "hint_cell (last ?line)" using bot by (simp add: list_all_iff)
    have bt: "butlast (tl ?line) = map (\<lambda>row. row ! j) (butlast (tl board))"
      by (simp add: map_butlast map_tl)
    have "list_all is_digit (butlast (tl ?line))"
      unfolding bt list_all_iff
    proof
      fix c
      assume "c \<in> set (map (\<lambda>row. row ! j) (butlast (tl board)))"
      then obtain row where row: "row \<in> set (butlast (tl board))" and c: "c = row ! j"
        by auto
      from row have mem: "row \<in> set board"
        by (rule subsetD [OF set_inner_subset])
      with sq have len: "length row = length board" by simp
      with j have "j \<in> set (inner_range (length row))" by simp
      then have "row ! j \<in> set (map ((!) row) (inner_range (length row)))" by simp
      then have inner: "row ! j \<in> set (butlast (tl row))"
        by (simp only: map_nth_inner_range)
      with mid row have "height_cell (row ! j)" by (simp add: list_all_iff)
      moreover from inner have "row ! j \<in> set row"
        by (rule subsetD [OF set_inner_subset])
      with fin mem have "row ! j \<noteq> CHR ''?''"
        by (auto simp: check_not_finished_board_iff)
      ultimately show "is_digit c" unfolding c by (rule height_cell_digit)
    qed
    with l2 h l have "\<exists>b. check_visibility ?line = Inr b"
      by (intro check_visibility_line_returns hint_cell_border)
    with inr show "(\<forall>row \<in> set board. j < length row) \<and>
       (\<exists>b. check_visibility (map (\<lambda>row. row ! j) board) = Inr b)" by simp
  qed
  then have "\<exists>b. vertical_loop board (inner_range (length board)) = Inr b"
    by (rule vertical_loop_returns)
  with ne hl show ?thesis
    by (cases board) (simp_all add: check_vertical_visibility_def)
qed

text \<open>
  Claim C8. For every readable path whose file holds a well-formed square board,
  \<open>check_skyscrapers\<close> returns a boolean and never raises: \<open>True\<close> when all five checks
  pass, and the one value \<open>False\<close> for every failure, whichever check fails.
\<close>

theorem check_skyscrapers_reports_false:
  assumes "read_input fs path = Inr board" and "well_formed_board board"
  shows "check_skyscrapers fs path =
     Inr (check_not_finished_board board \<and>
          check_uniqueness_in_rows board \<and>
          check_uniqueness_in_columns board = Inr True \<and>
          check_horizontal_visibility board = Inr True \<and>
          check_vertical_visibility board = Inr True)"
proof -
  from assms(2) have ne: "board \<noteq> []" and sq: "\<forall>row \<in> set board. length row = length board"
    by (simp_all add: well_formed_board_def)
  from rectangle_columns_return [OF ne sq]
  obtain c where c: "check_uniqueness_in_columns board = Inr c" ..
  note s = check_skyscrapers_on_board [OF assms(1) c]
  show ?thesis
  proof (cases "check_not_finished_board board")
    case True
    from wf_rows_return [OF assms(2) True]
    obtain h where h: "check_horizontal_visibility board = Inr h" ..
    from wf_columns_return [OF assms(2) True]
    obtain v where v: "check_vertical_visibility board = Inr v" ..
    show ?thesis unfolding s c h v using True by auto
  next
    case False
    then show ?thesis unfolding s by simp
  qed
qed


theorem check_skyscrapers_reports_false_witness:
  "well_formed_board [''****'', ''112*'', ''*21*'', ''****''] \<and>
   check_horizontal_visibility [''****'', ''112*'', ''*21*'', ''****''] = Inr False \<and>
   check_skyscrapers [''board.txt'' \<mapsto> file_text [''****'', ''112*'', ''*21*'', ''****'']]
     ''board.txt'' = Inr False"
proof -
  have r: "read_input [''board.txt'' \<mapsto> file_text [''****'', ''112*'', ''*21*'', ''****'']]
     ''board.txt'' = Inr [''****'', ''112*'', ''*21*'', ''****'']"
    by code_simp
  have w: "well_formed_board [''****'', ''112*'', ''*21*'', ''****'']"
    by code_simp
  have h: "check_horizontal_visibility [''****'', ''112*'', ''*21*'', ''****''] = Inr False"
    by code_simp
  from check_skyscrapers_reports_false [OF r w] h w show ?thesis
    by simp
qed

lemma scenario_board_checks:
  "check_not_finished_board scenario_board"
  "check_uniqueness_in_rows scenario_board"
  "check_uniqueness_in_columns scenario_board = Inr True"
  "check_horizontal_visibility scenario_board = Inr True"
  "check_vertical_visibility scenario_board = Inr True"
  by code_simp+

lemma scenario_board_duplicate_checks:
  "\<not> check_uniqueness_in_rows scenario_board_duplicate"
  "check_uniqueness_in_columns scenario_board_duplicate = Inr False"
  by code_simp+

text \<open>
  Claim C9. On the board of the scenario \<open>check_skyscrapers\<close> returns \<open>True\<close>; on the same
  board with the second line changed to \<open>452453*\<close> it returns \<open>False\<close>.
\<close>

theorem check_skyscrapers_scenarios:
  "(read_input fs path = Inr scenario_board \<longrightarrow> check_skyscrapers fs path = Inr True) \<and>
   (read_input fs path = Inr scenario_board_duplicate \<longrightarrow>
      check_skyscrapers fs path = Inr False)"
proof (intro conjI impI)
  assume r: "read_input fs path = Inr scenario_board"
  show "check_skyscrapers fs path = Inr True"
    unfolding check_skyscrapers_on_board [OF r scenario_board_checks(3)]
    by (simp add: scenario_board_checks)
next
  assume r: "read_input fs path = Inr scenario_board_duplicate"
  show "check_skyscrapers fs path = Inr False"
    unfolding check_skyscrapers_on_board [OF r scenario_board_duplicate_checks(2)]
    by (simp add: scenario_board_duplicate_checks)
qed

theorem check_skyscrapers_scenarios_witness:
  "read_input [''docs/check.txt'' \<mapsto> file_text scenario_board] ''docs/check.txt'' =
     Inr scenario_board \<and>
   check_skyscrapers [''docs/check.txt'' \<mapsto> file_text scenario_board] ''docs/check.txt'' =
     Inr True \<and>
   read_input [''docs/check.txt'' \<mapsto> file_text scenario_board_duplicate] ''docs/check.txt'' =
     Inr scenario_board_duplicate \<and>
   check_skyscrapers [''docs/check.txt'' \<mapsto> file_text scenario_board_duplicate]
     ''docs/check.txt'' = Inr False"
proof -
  have r1: "read_input [''docs/check.txt'' \<mapsto> file_text scenario_board] ''docs/check.txt'' =
     Inr scenario_board"
    by code_simp
  have r2: "read_input [''docs/check.txt'' \<mapsto> file_text scenario_board_duplicate]
     ''docs/check.txt'' = Inr scenario_board_duplicate"
    by code_simp
  from check_skyscrapers_scenarios
    [of "[''docs/check.txt'' \<mapsto> file_text scenario_board]" "''docs/check.txt''"] r1
  have "check_skyscrapers [''docs/check.txt'' \<mapsto> file_text scenario_board] ''docs/check.txt'' =
     Inr True" by simp
  moreover from check_skyscrapers_scenarios
    [of "[''docs/check.txt'' \<mapsto> file_text scenario_board_duplicate]" "''docs/check.txt''"] r2
  have "check_skyscrapers [''docs/check.txt'' \<mapsto> file_text scenario_board_duplicate]
     ''docs/check.txt'' = Inr False" by simp
  ultimately show ?thesis using r1 r2 by simp
qed

end
